theory Spec2Isabelle
  imports Main "HOL-Library.Sublist"
begin

section \<open>Strings\<close>

text \<open>
  A Python \<open>str\<close> is a sequence of Unicode code points. It is modelled as a list of
  natural numbers, one per code point; \<open>str\<close> turns an ASCII literal into such a list,
  so that \<open>str ''abc''\<close> is \<open>[97, 98, 99]\<close>. A line feed is the code point 10.
\<close>

type_synonym ustr = "nat list"

definition str :: "string \<Rightarrow> ustr" where
  "str s = map of_char s"

text \<open>
  \<open>find_first old s\<close> splits \<open>s\<close> at the leftmost occurrence of \<open>old\<close>, into the text
  before it and the text after it; \<open>None\<close> when \<open>old\<close> does not occur. It is the search
  that \<open>str.replace\<close> and the lazy quantifier of the regular expression both perform:
  try here, otherwise move one character to the right.
\<close>

fun find_first :: "'a list \<Rightarrow> 'a list \<Rightarrow> ('a list \<times> 'a list) option" where
  "find_first old [] = (if old = [] then Some ([], []) else None)"
| "find_first old (c # cs) =
     (if prefix old (c # cs) then Some ([], drop (length old) (c # cs))
      else map_option (\<lambda>(pre, post). (c # pre, post)) (find_first old cs))"

text \<open>\<open>s.replace(old, new, 1)\<close>: the leftmost occurrence only; \<open>s\<close> itself when there is none.\<close>

definition replace_first :: "'a list \<Rightarrow> 'a list \<Rightarrow> 'a list \<Rightarrow> 'a list" where
  "replace_first old new s =
     (case find_first old s of None \<Rightarrow> s | Some (pre, post) \<Rightarrow> pre @ new @ post)"

text \<open>
  \<open>s.replace(old, new)\<close>: every occurrence, scanning from the left without overlaps. With
  an empty \<open>old\<close> Python puts \<open>new\<close> before every character and at the end.
\<close>

function replace_all :: "'a list \<Rightarrow> 'a list \<Rightarrow> 'a list \<Rightarrow> 'a list" where
  "replace_all old new s =
     (if old = [] then new @ concat (map (\<lambda>c. c # new) s)
      else if s = [] then []
      else if prefix old s then new @ replace_all old new (drop (length old) s)
      else hd s # replace_all old new (tl s))"
  by pat_completeness auto
termination
  by (relation "measure (\<lambda>(old, new, s). length s)") (auto simp: neq_Nil_conv)

text \<open>\<open>str(n)\<close> for a non-negative integer: its decimal digits.\<close>

function show_nat :: "nat \<Rightarrow> ustr" where
  "show_nat n = (if n < 10 then [48 + n] else show_nat (n div 10) @ [48 + n mod 10])"
  by pat_completeness auto
termination
  by (relation "measure id") auto

text \<open>
  \<open>s.strip()\<close> removes the white space at both ends. For a \<open>str\<close> the white space is
  the set of code points for which \<open>str.isspace\<close> holds.
\<close>

definition is_space :: "nat \<Rightarrow> bool" where
  "is_space c \<longleftrightarrow>
     (9 \<le> c \<and> c \<le> 13) \<or> (28 \<le> c \<and> c \<le> 32) \<or> c = 133 \<or> c = 160 \<or> c = 5760 \<or>
     (8192 \<le> c \<and> c \<le> 8202) \<or> c = 8232 \<or> c = 8233 \<or> c = 8239 \<or> c = 8287 \<or> c = 12288"

definition strip :: "ustr \<Rightarrow> ustr" where
  "strip s = rev (dropWhile is_space (rev (dropWhile is_space s)))"

section \<open>The extractor\<close>

text \<open>
  \<^verbatim>\<open>pattern = r'```mermaid\n(.*?)\n```'\<close> with \<open>re.DOTALL\<close>: the opening fence, a lazy
  group of any characters (line feeds included), the closing fence.
\<close>

definition fence_open :: ustr where
  "fence_open = str ''```mermaid'' @ [10]"

definition fence_close :: ustr where
  "fence_close = [10] @ str ''```''"

text \<open>
  A match of the pattern that starts at the first character of \<open>s\<close>: the opening fence
  must be there, and the lazy group takes the fewest characters after which the closing
  fence follows. The result is the group and the text after the match.
\<close>

definition match_here :: "ustr \<Rightarrow> (ustr \<times> ustr) option" where
  "match_here s =
     (if prefix fence_open s then find_first fence_close (drop (length fence_open) s)
      else None)"

text \<open>
  The leftmost match in \<open>s\<close>, as the scan of \<open>re.findall\<close> finds it: the text before the
  match, the group, and the text after the match.
\<close>

fun re_search :: "ustr \<Rightarrow> (ustr \<times> ustr \<times> ustr) option" where
  "re_search [] = None"
| "re_search (c # cs) =
     (case match_here (c # cs) of
        Some (body, rest) \<Rightarrow> Some ([], body, rest)
      | None \<Rightarrow> map_option (\<lambda>(pre, body, rest). (c # pre, body, rest)) (re_search cs))"

text \<open>
  \<open>re.findall\<close> returns the groups of the successive non-overlapping matches, each search
  starting where the previous match ended.
\<close>

function extract_mermaid_diagrams :: "ustr \<Rightarrow> ustr list" where
  "extract_mermaid_diagrams markdown_content =
     (case re_search markdown_content of
        None \<Rightarrow> []
      | Some (pre, body, rest) \<Rightarrow> body # extract_mermaid_diagrams rest)"
  by pat_completeness auto
termination
proof (relation "measure length")
  show "wf (measure length)" by simp
next
  fix markdown_content :: ustr and x2 pre y body rest
  assume a: "re_search markdown_content = Some x2" "(pre, y) = x2" "(body, rest) = y"
  have ff: "length post < length s" if "find_first old s = Some (p, post)" "old \<noteq> []"
    for old s p and post :: ustr
    using that by (induction s arbitrary: p) (auto split: if_splits)
  have mh: "length r < length s" if "match_here s = Some (b, r)" for s b r
  proof -
    from that have "find_first fence_close (drop (length fence_open) s) = Some (b, r)"
      by (simp add: match_here_def split: if_splits)
    from ff [OF this] have "length r < length (drop (length fence_open) s)"
      by (simp add: fence_close_def)
    then show ?thesis by simp
  qed
  have "length r < length s" if "re_search s = Some (p, b, r)" for s p b r
    using that
  proof (induction s arbitrary: p)
    case Nil
    then show ?case by simp
  next
    case (Cons c cs)
    then show ?case
      by (fastforce split: option.splits dest: mh)
  qed
  with a show "(rest, markdown_content) \<in> measure length" by auto
qed

declare extract_mermaid_diagrams.simps [simp del]
declare replace_all.simps [simp del]
declare show_nat.simps [simp del]

section \<open>The substituter\<close>

definition mermaid_block :: "ustr \<Rightarrow> ustr" where
  "mermaid_block diagram = str ''```mermaid'' @ [10] @ diagram @ [10] @ str ''```''"

definition image_ref :: "nat \<Rightarrow> ustr \<Rightarrow> ustr" where
  "image_ref i image_file =
     str ''![Diagram '' @ show_nat (i + 1) @ str '']('' @ image_file @ str '')''"

text \<open>
  The loop \<open>for i, diagram in enumerate(diagrams)\<close>, with the text built so far as its
  state. \<open>image_files[i]\<close> is read only under the guard \<open>i < len(image_files)\<close>.
\<close>

fun enhance_loop :: "nat \<Rightarrow> ustr list \<Rightarrow> ustr list \<Rightarrow> ustr \<Rightarrow> ustr" where
  "enhance_loop i [] image_files enhanced_content = enhanced_content"
| "enhance_loop i (diagram # diagrams) image_files enhanced_content =
     enhance_loop (i + 1) diagrams image_files
       (if i < length image_files
        then replace_first (mermaid_block diagram) (image_ref i (image_files ! i))
               enhanced_content
        else enhanced_content)"

definition create_enhanced_markdown :: "ustr \<Rightarrow> ustr list \<Rightarrow> ustr" where
  "create_enhanced_markdown original_content image_files =
     enhance_loop 0 (extract_mermaid_diagrams original_content) image_files original_content"

section \<open>The environment\<close>

text \<open>
  The script reads and writes files, prints to the console and starts an external
  program. Each of these can raise, for reasons that lie outside the script: a path
  that cannot be opened, a text that the encoding of the file or of the console cannot
  take (a lone surrogate, a check mark on an ASCII console), a full disk, a closed
  pipe. The state the script acts on therefore holds, beside the files and the console,
  what the environment will do: for each operation, whether it raises, and with which
  message.

  \<^item> \<open>contents\<close> maps a file to the characters stored in it, and \<open>link\<close> maps a path to
    the file it names (the path itself, unless it is a symbolic or a hard link).
  \<^item> \<open>stdout\<close> holds the arguments of the calls of \<open>print\<close> that went through,
    \<open>written\<close> the path and the text of every \<open>f.write\<close> that went through, and
    \<open>invoked\<close> the command line of every call of \<open>subprocess.run\<close>, oldest first.
  \<^item> \<open>read_raises path\<close>, \<open>write_raises path text\<close> and \<open>print_raises printed line\<close> are
    \<open>None\<close> when the operation goes through, and the message of the exception
    otherwise; \<open>printed\<close> is the console so far.

  The paths of the script are POSIX paths, so a line feed is written as it is; reading
  in text mode turns every carriage return, with a line feed after it or not, into a
  line feed. What the state is after an operation has raised is not modelled: the
  script catches exceptions only around the call of the renderer, and there only a
  \<open>print\<close> can be caught, which changes nothing when it raises.
\<close>

record world =
  contents :: "ustr \<rightharpoonup> ustr"
  link :: "ustr \<Rightarrow> ustr"
  stdout :: "ustr list"
  written :: "(ustr \<times> ustr) list"
  invoked :: "ustr list list"
  read_raises :: "ustr \<Rightarrow> ustr option"
  write_raises :: "ustr \<Rightarrow> ustr \<Rightarrow> ustr option"
  print_raises :: "ustr list \<Rightarrow> ustr \<Rightarrow> ustr option"

text \<open>
  An exception of a class below \<open>Exception\<close>. \<open>message\<close> is \<open>str(e)\<close>; for a missing file
  it is the text of the operating system, with the path in quotes.
\<close>

datatype error = FileNotFoundError ustr | Exception ustr


definition print :: "ustr \<Rightarrow> world \<Rightarrow> error + world" where
  "print line w =
     (case print_raises w (stdout w) line of
        Some txt \<Rightarrow> Inl (Exception txt)
      | None \<Rightarrow> Inr (w\<lparr>stdout := stdout w @ [line]\<rparr>))"



text \<open>\<open>with open(path, 'w') as f: f.write(text)\<close>\<close>

definition write_file :: "ustr \<Rightarrow> ustr \<Rightarrow> world \<Rightarrow> error + world" where
  "write_file path txt w =
     (case write_raises w path txt of
        Some msg \<Rightarrow> Inl (Exception msg)
      | None \<Rightarrow>
          Inr (w\<lparr>contents := (contents w)(link w path \<mapsto> txt),
                 written := written w @ [(path, txt)]\<rparr>))"



text \<open>
  \<open>subprocess.run\<close> returns a completed process with its exit status and its captured
  standard error, or raises \<open>TimeoutExpired\<close>, or raises another exception (the
  executable is missing, an argument or the output cannot be coded), whose message is
  kept. The external program is a black box: any function from its command line and
  the files it finds to an outcome and the files it leaves behind.
\<close>

datatype outcome = Completed int ustr | TimeoutExpired | Raised ustr

type_synonym filesystem = "(ustr \<rightharpoonup> ustr) \<times> (ustr \<Rightarrow> ustr)"

type_synonym renderer = "ustr list \<Rightarrow> filesystem \<Rightarrow> outcome \<times> filesystem"


section \<open>The materializer\<close>

definition mmd_name :: "nat \<Rightarrow> ustr" where
  "mmd_name i = str ''/tmp/diagram_'' @ show_nat (i + 1) @ str ''.mmd''"

text \<open>
  The loop \<open>for i, diagram in enumerate(diagrams)\<close> with the list \<open>diagram_files\<close> as its
  accumulator. An exception of \<open>open\<close> or \<open>f.write\<close> ends the function.
\<close>

fun create_loop :: "nat \<Rightarrow> ustr list \<Rightarrow> ustr list \<Rightarrow> world \<Rightarrow> error + ustr list \<times> world" where
  "create_loop i [] diagram_files w = Inr (diagram_files, w)"
| "create_loop i (diagram # diagrams) diagram_files w =
     (case write_file (mmd_name i) (strip diagram) w of
        Inl e \<Rightarrow> Inl e
      | Inr w' \<Rightarrow> create_loop (i + 1) diagrams (diagram_files @ [mmd_name i]) w')"

definition create_mermaid_files :: "ustr list \<Rightarrow> world \<Rightarrow> error + ustr list \<times> world" where
  "create_mermaid_files diagrams w = create_loop 0 diagrams [] w"

section \<open>The renderer invoker\<close>

definition png_name :: "ustr \<Rightarrow> ustr" where
  "png_name mmd_file = replace_all (str ''.mmd'') (str ''.png'') mmd_file"

definition mmdc_argv :: "ustr \<Rightarrow> ustr \<Rightarrow> ustr list" where
  "mmdc_argv mmd_file png_file =
     [str ''mmdc'', str ''-i'', mmd_file, str ''-o'', png_file,
      str ''--backgroundColor'', str ''white'', str ''--theme'', str ''default'']"







section \<open>The script\<close>





section \<open>Vocabulary of the statements\<close>

text \<open>
  \<open>no_start P T X\<close>: in the text \<open>T @ X\<close>, no occurrence of \<open>P\<close> begins at one of the
  positions of \<open>T\<close>.
\<close>

fun no_start :: "'a list \<Rightarrow> 'a list \<Rightarrow> 'a list \<Rightarrow> bool" where
  "no_start P [] X = True"
| "no_start P (c # T) X = (\<not> prefix P (c # T @ X) \<and> no_start P T X)"

text \<open>
  The outcomes of the successive invocations that the renderer invoker makes for a list
  of source files, the first one on the files \<open>fs\<close>, each later one on the files the
  previous invocation left behind.
\<close>

fun outcomes :: "renderer \<Rightarrow> ustr list \<Rightarrow> filesystem \<Rightarrow> outcome list" where
  "outcomes mmdc [] fs = []"
| "outcomes mmdc (mmd_file # diagram_files) fs =
     (case mmdc (mmdc_argv mmd_file (png_name mmd_file)) fs of
        (result, fs') \<Rightarrow> result # outcomes mmdc diagram_files fs')"

text \<open>An invocation succeeded: it completed with exit status zero.\<close>

fun exit_zero :: "outcome \<Rightarrow> bool" where
  "exit_zero (Completed returncode stderr) = (returncode = 0)"
| "exit_zero TimeoutExpired = False"
| "exit_zero (Raised e) = False"


text \<open>The source files whose invocation succeeded, in their order.\<close>

definition successes :: "ustr list \<Rightarrow> outcome list \<Rightarrow> ustr list" where
  "successes diagram_files results =
     map fst (filter (\<lambda>(mmd_file, result). exit_zero result) (zip diagram_files results))"

text \<open>
  The stored files after the materializer has written the bodies \<open>diagrams\<close>, the first
  of them under the index \<open>i\<close>; \<open>names\<close> says which file a path names.
\<close>

fun staged :: "nat \<Rightarrow> ustr list \<Rightarrow> (ustr \<Rightarrow> ustr) \<Rightarrow> (ustr \<rightharpoonup> ustr) \<Rightarrow> (ustr \<rightharpoonup> ustr)" where
  "staged i [] names stored = stored"
| "staged i (diagram # diagrams) names stored =
     staged (i + 1) diagrams names (stored(names (mmd_name i) \<mapsto> strip diagram))"

text \<open>
  A document read as the extractor reads it: the text \<open>gap\<close> before a diagram block
  and the \<open>body\<close> of the block, for each block in turn, and the \<open>tail\<close> after the last
  block. \<open>doc\<close> puts the text together again.
\<close>

fun doc :: "(ustr \<times> ustr) list \<Rightarrow> ustr \<Rightarrow> ustr" where
  "doc [] tail = tail"
| "doc ((gap, body) # segs) tail = gap @ mermaid_block body @ doc segs tail"

text \<open>
  \<open>no_block s\<close>: at no position of \<open>s\<close> does an opening fence begin that has a closing
  fence somewhere after it.
\<close>

fun no_block :: "ustr \<Rightarrow> bool" where
  "no_block [] = True"
| "no_block (c # cs) =
     (\<not> (prefix fence_open (c # cs) \<and> sublist fence_close (drop (length fence_open) (c # cs)))
      \<and> no_block cs)"

text \<open>
  \<open>scanned segs tail\<close>: the parts are those of the leftmost blocks. No opening fence
  begins inside a gap, no closing fence begins inside a body, and the tail holds no
  block. Every document has exactly such a reading (\<open>layout_exists\<close>, \<open>extract_doc\<close>).
\<close>

fun scanned :: "(ustr \<times> ustr) list \<Rightarrow> ustr \<Rightarrow> bool" where
  "scanned [] tail = no_block tail"
| "scanned ((gap, body) # segs) tail =
     (no_start fence_open gap (mermaid_block body @ doc segs tail) \<and>
      no_start fence_close body (fence_close @ doc segs tail) \<and>
      scanned segs tail)"

text \<open>
  The document in which the blocks with an index below the number of image paths are
  replaced by their image references, each in its own place; \<open>i\<close> is the index of the
  first block of \<open>segs\<close>.
\<close>

fun substituted :: "nat \<Rightarrow> ustr list \<Rightarrow> (ustr \<times> ustr) list \<Rightarrow> ustr \<Rightarrow> ustr" where
  "substituted i image_files [] tail = tail"
| "substituted i image_files ((gap, body) # segs) tail =
     gap @ (if i < length image_files then image_ref i (image_files ! i) else mermaid_block body)
         @ substituted (i + 1) image_files segs tail"

text \<open>
  The text the substituter holds after it has visited the first \<open>k\<close> diagrams: its loop
  run on the first \<open>k\<close> extracted bodies only.
\<close>

definition walk :: "ustr list \<Rightarrow> ustr \<Rightarrow> nat \<Rightarrow> ustr" where
  "walk image_files content k =
     enhance_loop 0 (take k (extract_mermaid_diagrams content)) image_files content"

text \<open>The document in which every block is replaced by the image reference of its index.\<close>

fun with_images :: "nat \<Rightarrow> ustr list \<Rightarrow> (ustr \<times> ustr) list \<Rightarrow> ustr \<Rightarrow> ustr" where
  "with_images i image_files [] tail = tail"
| "with_images i image_files ((gap, body) # segs) tail =
     gap @ image_ref i (image_files ! i) @ with_images (i + 1) image_files segs tail"


section \<open>Searching and replacing\<close>

lemma prefix_drop_eq: "prefix old s \<Longrightarrow> old @ drop (length old) s = s"
  by (auto simp: prefix_def)

lemma find_first_sound:
  "find_first old s = Some (pre, post) \<Longrightarrow> s = pre @ old @ post \<and> no_start old pre (old @ post)"
proof (induction s arbitrary: pre)
  case Nil
  then show ?case by (simp split: if_splits)
next
  case (Cons c cs)
  show ?case
  proof (cases "prefix old (c # cs)")
    case True
    with Cons.prems have "pre = []" "post = drop (length old) (c # cs)" by auto
    with True show ?thesis using prefix_drop_eq [OF True] by simp
  next
    case False
    with Cons.prems obtain p where p: "find_first old cs = Some (p, post)" "pre = c # p"
      by auto
    from Cons.IH [OF p(1)] have "cs = p @ old @ post" "no_start old p (old @ post)" by auto
    with False p(2) show ?thesis by auto
  qed
qed

lemma find_first_first:
  "no_start old pre (old @ post) \<Longrightarrow> find_first old (pre @ old @ post) = Some (pre, post)"
proof (induction pre)
  case Nil
  show ?case
  proof (cases "old @ post")
    case Nil
    then show ?thesis by simp
  next
    case (Cons a list)
    have "find_first old (a # list) = Some ([], drop (length old) (a # list))"
      unfolding Cons [symmetric] using Cons by (metis find_first.simps(2) prefixI)
    then show ?thesis by (simp add: Cons [symmetric])
  qed
next
  case (Cons c pre)
  then show ?case by simp
qed

lemma find_first_None_iff: "find_first old s = None \<longleftrightarrow> \<not> sublist old s"
proof (induction s)
  case Nil
  then show ?case by simp
next
  case (Cons c cs)
  then show ?case by (auto simp: sublist_Cons_right)
qed

lemma match_here_sound:
  "match_here s = Some (b, r) \<Longrightarrow>
     s = fence_open @ b @ fence_close @ r \<and> no_start fence_close b (fence_close @ r)"
  unfolding match_here_def
  by (auto split: if_splits dest!: find_first_sound simp: prefix_def)

lemma re_search_sound:
  "re_search s = Some (g, b, r) \<Longrightarrow> s = g @ fence_open @ b @ fence_close @ r"
proof (induction s arbitrary: g)
  case Nil
  then show ?case by simp
next
  case (Cons c cs)
  then show ?case
    by (fastforce split: option.splits dest: match_here_sound)
qed

lemma mermaid_block_fences: "mermaid_block d = fence_open @ d @ fence_close"
  by (simp add: mermaid_block_def fence_open_def fence_close_def)

lemma extract_Nil: "re_search s = None \<Longrightarrow> extract_mermaid_diagrams s = []"
  by (simp add: extract_mermaid_diagrams.simps)

lemma extract_Cons:
  "re_search s = Some (g, b, r) \<Longrightarrow> extract_mermaid_diagrams s = b # extract_mermaid_diagrams r"
  by (simp add: extract_mermaid_diagrams.simps)

section \<open>Documents without diagram blocks\<close>

text \<open>
  Claim C5. A document in which no fenced block \<^verbatim>\<open>```mermaid\<close>, line feed, body, line feed,
  \<^verbatim>\<open>```\<close> occurs anywhere has no diagrams: the extractor returns the empty list, and
  the substituter returns the document unchanged, whatever image paths it is given.
\<close>

theorem no_blocks_identity:
  assumes "\<not> (\<exists>pre body post. content = pre @ mermaid_block body @ post)"
  shows "extract_mermaid_diagrams content = [] \<and>
         create_enhanced_markdown content image_files = content"
proof -
  have "re_search content = None"
  proof (cases "re_search content")
    case None
    then show ?thesis .
  next
    case (Some t)
    then obtain g b r where "re_search content = Some (g, b, r)" by (cases t) auto
    from re_search_sound [OF this] have "content = g @ mermaid_block b @ r"
      by (simp add: mermaid_block_fences)
    with assms show ?thesis by blast
  qed
  then have "extract_mermaid_diagrams content = []" by (rule extract_Nil)
  then show ?thesis by (simp add: create_enhanced_markdown_def)
qed


theorem no_blocks_identity_witness:
  "\<not> (\<exists>pre body post. str ''# Title'' = pre @ mermaid_block body @ post) \<and>
   extract_mermaid_diagrams (str ''# Title'') = [] \<and>
   create_enhanced_markdown (str ''# Title'') [str ''/tmp/diagram_1.png''] = str ''# Title''"
proof -
  have h: "\<not> (\<exists>pre body post. str ''# Title'' = pre @ mermaid_block body @ post)"
  proof
    assume "\<exists>pre body post. str ''# Title'' = pre @ mermaid_block body @ post"
    then obtain pre body post where e: "str ''# Title'' = pre @ mermaid_block body @ post"
      by blast
    have "(96::nat) \<in> set (pre @ mermaid_block body @ post)"
      by (simp add: mermaid_block_def str_def)
    with e have "(96::nat) \<in> set (str ''# Title'')" by simp
    then show False by (simp add: str_def)
  qed
  from no_blocks_identity [OF h] h show ?thesis by blast
qed

section \<open>Decimal numerals and file names\<close>

lemma show_nat_value: "foldl (\<lambda>a d. 10 * a + (d - 48)) 0 (show_nat n) = n"
proof (induction n rule: show_nat.induct)
  case (1 n)
  show ?case
  proof (cases "n < 10")
    case True
    then show ?thesis by (simp add: show_nat.simps [of n])
  next
    case False
    with 1 show ?thesis by (simp add: show_nat.simps [of n])
  qed
qed

lemma show_nat_inj: "show_nat m = show_nat n \<Longrightarrow> m = n"
  by (metis show_nat_value)

lemma show_nat_digits: "set (show_nat n) \<subseteq> {48..57}"
proof (induction n rule: show_nat.induct)
  case (1 n)
  show ?case
  proof (cases "n < 10")
    case True
    then show ?thesis by (simp add: show_nat.simps [of n])
  next
    case False
    have "n mod 10 < 10" by simp
    then have "48 + n mod 10 \<le> 57" by linarith
    with False 1 show ?thesis by (simp add: show_nat.simps [of n])
  qed
qed

lemma mmd_name_inj: "mmd_name i = mmd_name j \<Longrightarrow> i = j"
  by (auto simp: mmd_name_def dest: show_nat_inj)


section \<open>The renderer invoker returns the successes\<close>

lemma length_outcomes [simp]: "length (outcomes mmdc fs s) = length fs"
  by (induction fs arbitrary: s) (auto split: prod.splits)


lemma successes_Nil [simp]: "successes [] rs = []"
  by (simp add: successes_def)


lemma print_ok:
  "print_raises w (stdout w) l = None \<Longrightarrow> print l w = Inr (w\<lparr>stdout := stdout w @ [l]\<rparr>)"
  by (simp add: print_def)









section \<open>The files of the materializer\<close>

lemma staged_other:
  "(\<forall>k<length ds. f \<noteq> names (mmd_name (i + k))) \<Longrightarrow> staged i ds names stored f = stored f"
proof (induction ds arbitrary: i stored)
  case Nil
  then show ?case by simp
next
  case (Cons d ds)
  from Cons.prems have a: "f \<noteq> names (mmd_name i)" by force
  from Cons.prems have "\<forall>k<length ds. f \<noteq> names (mmd_name (i + 1 + k))" by force
  from Cons.IH [OF this] a show ?case by simp
qed

lemma staged_written:
  "inj_on names (mmd_name ` {i..<i + length ds}) \<Longrightarrow> k < length ds \<Longrightarrow>
     staged i ds names stored (names (mmd_name (i + k))) = Some (strip (ds ! k))"
proof (induction ds arbitrary: i stored k)
  case Nil
  then show ?case by simp
next
  case (Cons d ds)
  show ?case
  proof (cases k)
    case 0
    have "\<forall>k<length ds. names (mmd_name i) \<noteq> names (mmd_name (i + 1 + k))"
    proof (intro allI impI notI)
      fix j assume j: "j < length ds" and e: "names (mmd_name i) = names (mmd_name (i + 1 + j))"
      from j have "mmd_name i \<in> mmd_name ` {i..<i + length (d # ds)}"
        "mmd_name (i + 1 + j) \<in> mmd_name ` {i..<i + length (d # ds)}" by auto
      with Cons.prems(1) e have "mmd_name i = mmd_name (i + 1 + j)" by (meson inj_onD)
      then show False by (auto dest: mmd_name_inj)
    qed
    from staged_other [OF this] 0 show ?thesis by simp
  next
    case (Suc k')
    with Cons.prems have k': "k' < length ds" by simp
    have "mmd_name ` {i + 1..<i + 1 + length ds} \<subseteq> mmd_name ` {i..<i + length (d # ds)}"
      by auto
    with Cons.prems(1) have "inj_on names (mmd_name ` {i + 1..<i + 1 + length ds})"
      by (rule inj_on_subset)
    from Cons.IH [OF this k'] Suc show ?thesis by simp
  qed
qed

lemma create_loop_ok:
  "(\<forall>k<length ds. write_raises w (mmd_name (i + k)) (strip (ds ! k)) = None) \<Longrightarrow>
     create_loop i ds acc w =
       Inr (acc @ map mmd_name [i..<i + length ds],
            w\<lparr>contents := staged i ds (link w) (contents w),
              written := written w @ zip (map mmd_name [i..<i + length ds]) (map strip ds)\<rparr>)"
proof (induction ds arbitrary: i acc w)
  case Nil
  then show ?case by simp
next
  case (Cons d ds)
  from Cons.prems have a: "write_raises w (mmd_name i) (strip d) = None" by force
  let ?w = "w\<lparr>contents := (contents w)(link w (mmd_name i) \<mapsto> strip d),
              written := written w @ [(mmd_name i, strip d)]\<rparr>"
  from Cons.prems
  have "\<forall>k<length ds. write_raises ?w (mmd_name (i + 1 + k)) (strip (ds ! k)) = None" by force
  from Cons.IH [OF this, of "acc @ [mmd_name i]"]
  have ih: "create_loop (i + 1) ds (acc @ [mmd_name i]) ?w =
      Inr ((acc @ [mmd_name i]) @ map mmd_name [i + 1..<i + 1 + length ds],
           ?w\<lparr>contents := staged (i + 1) ds (link ?w) (contents ?w),
               written := written ?w @
                 zip (map mmd_name [i + 1..<i + 1 + length ds]) (map strip ds)\<rparr>)" .
  have step: "create_loop i (d # ds) acc w = create_loop (i + 1) ds (acc @ [mmd_name i]) ?w"
    using a by (simp add: write_file_def)
  have "i < i + length (d # ds)" by simp
  from upt_conv_Cons [OF this]
  have l: "[i..<i + length (d # ds)] = i # [i + 1..<i + 1 + length ds]"
    by (simp del: upt_Suc)
  show ?case
    unfolding step ih l by simp
qed

lemma create_loop_raises:
  "j < length ds \<Longrightarrow> write_raises w (mmd_name (i + j)) (strip (ds ! j)) = Some msg \<Longrightarrow>
   (\<forall>k<j. write_raises w (mmd_name (i + k)) (strip (ds ! k)) = None) \<Longrightarrow>
     create_loop i ds acc w = Inl (Exception msg)"
proof (induction ds arbitrary: i acc w j)
  case Nil
  then show ?case by simp
next
  case (Cons d ds)
  show ?case
  proof (cases j)
    case 0
    with Cons.prems show ?thesis by (simp add: write_file_def)
  next
    case (Suc j')
    let ?w = "w\<lparr>contents := (contents w)(link w (mmd_name i) \<mapsto> strip d),
                written := written w @ [(mmd_name i, strip d)]\<rparr>"
    from Cons.prems(3) Suc have a: "write_raises w (mmd_name i) (strip d) = None" by force
    from Cons.prems Suc have 1: "j' < length ds"
      and 2: "write_raises ?w (mmd_name (i + 1 + j')) (strip (ds ! j')) = Some msg" by simp_all
    have 3: "\<forall>k<j'. write_raises ?w (mmd_name (i + 1 + k)) (strip (ds ! k)) = None"
    proof (intro allI impI)
      fix k assume "k < j'"
      with Suc have "Suc k < j" by simp
      with Cons.prems(3) have "write_raises w (mmd_name (i + Suc k)) (strip ((d # ds) ! Suc k)) = None"
        by blast
      then show "write_raises ?w (mmd_name (i + 1 + k)) (strip (ds ! k)) = None" by simp
    qed
    from Cons.IH [OF 1 2 3] a show ?thesis by (simp add: write_file_def)
  qed
qed

lemma mmd_names_ordinals:
  "map mmd_name [0..<n] =
     map (\<lambda>k. str ''/tmp/diagram_'' @ show_nat k @ str ''.mmd'') [1..<Suc n]"
proof -
  have "map (\<lambda>k. str ''/tmp/diagram_'' @ show_nat k @ str ''.mmd'') [1..<Suc n]
      = map ((\<lambda>k. str ''/tmp/diagram_'' @ show_nat k @ str ''.mmd'') \<circ> Suc) [0..<n]"
    by (simp only: map_map [symmetric] map_Suc_upt One_nat_def)
  also have "\<dots> = map mmd_name [0..<n]"
    by (simp add: mmd_name_def fun_eq_iff)
  finally show ?thesis by simp
qed

lemma distinct_mmd_names: "distinct (map mmd_name [0..<n])"
  by (simp add: distinct_map inj_on_def) (meson mmd_name_inj)

lemma create_mermaid_files_ok:
  assumes "\<forall>k<length diagrams. write_raises w (mmd_name k) (strip (diagrams ! k)) = None"
  shows "create_mermaid_files diagrams w =
           Inr (map mmd_name [0..<length diagrams],
                w\<lparr>contents := staged 0 diagrams (link w) (contents w),
                  written := written w @
                    zip (map mmd_name [0..<length diagrams]) (map strip diagrams)\<rparr>)"
  using create_loop_ok [of diagrams w 0 "[]"] assms
  by (simp add: create_mermaid_files_def)


text \<open>
  Claim C6. Given \<open>n\<close> bodies, and provided none of the \<open>n\<close> writes raises, the
  materializer returns the paths \<^verbatim>\<open>/tmp/diagram_1.mmd\<close> to \<^verbatim>\<open>/tmp/diagram_n.mmd\<close> in this
  order, the ordinal written as the decimal numeral of its value. The paths are
  pairwise distinct. Exactly \<open>n\<close> writes are made, the \<open>k\<close>-th of them to the \<open>k\<close>-th path
  with the \<open>k\<close>-th body (stripped), and no file is changed but those the \<open>n\<close> paths name;
  when the paths name \<open>n\<close> different files (none is a link to another), the \<open>k\<close>-th file
  holds the \<open>k\<close>-th body (stripped) afterwards.
\<close>

theorem materializer_writes_ordinal_files:
  assumes "\<forall>k<length diagrams.
             write_raises w (str ''/tmp/diagram_'' @ show_nat (Suc k) @ str ''.mmd'')
               (strip (diagrams ! k)) = None"
  shows "\<exists>w'. create_mermaid_files diagrams w
                = Inr (map (\<lambda>k. str ''/tmp/diagram_'' @ show_nat k @ str ''.mmd'')
                         [1..<Suc (length diagrams)], w') \<and>
           distinct (map (\<lambda>k. str ''/tmp/diagram_'' @ show_nat k @ str ''.mmd'')
                       [1..<Suc (length diagrams)]) \<and>
           (\<forall>k. set (show_nat k) \<subseteq> {48..57} \<and>
                foldl (\<lambda>a d. 10 * a + (d - 48)) 0 (show_nat k) = k) \<and>
           written w'
             = written w @
               zip (map (\<lambda>k. str ''/tmp/diagram_'' @ show_nat k @ str ''.mmd'')
                      [1..<Suc (length diagrams)])
                   (map strip diagrams) \<and>
           link w' = link w \<and>
           (\<forall>f. f \<notin> link w ` set (map (\<lambda>k. str ''/tmp/diagram_'' @ show_nat k @ str ''.mmd'')
                                      [1..<Suc (length diagrams)]) \<longrightarrow>
                contents w' f = contents w f) \<and>
           (inj_on (link w) (set (map (\<lambda>k. str ''/tmp/diagram_'' @ show_nat k @ str ''.mmd'')
                                    [1..<Suc (length diagrams)])) \<longrightarrow>
              (\<forall>k<length diagrams.
                 contents w' (link w (str ''/tmp/diagram_'' @ show_nat (Suc k) @ str ''.mmd''))
                   = Some (strip (diagrams ! k))))"
proof -
  let ?names = "map (\<lambda>k. str ''/tmp/diagram_'' @ show_nat k @ str ''.mmd'')
                  [1..<Suc (length diagrams)]"
  let ?w = "w\<lparr>contents := staged 0 diagrams (link w) (contents w),
              written := written w @
                zip (map mmd_name [0..<length diagrams]) (map strip diagrams)\<rparr>"
  have n: "map mmd_name [0..<length diagrams] = ?names" by (rule mmd_names_ordinals)
  have m: "mmd_name k = str ''/tmp/diagram_'' @ show_nat (Suc k) @ str ''.mmd''" for k
    by (simp add: mmd_name_def)
  have s: "set ?names = mmd_name ` {0..<0 + length diagrams}"
    unfolding n [symmetric] by simp
  from assms have "\<forall>k<length diagrams. write_raises w (mmd_name k) (strip (diagrams ! k)) = None"
    by (simp add: m)
  then have 1: "create_mermaid_files diagrams w = Inr (?names, ?w)"
    unfolding n [symmetric] by (rule create_mermaid_files_ok)
  have 2: "distinct ?names" using distinct_mmd_names [of "length diagrams"] unfolding n .
  have 3: "written ?w = written w @ zip ?names (map strip diagrams)"
    unfolding n [symmetric] by simp
  have 4: "\<forall>f. f \<notin> link w ` set ?names \<longrightarrow> contents ?w f = contents w f"
  proof (intro allI impI)
    fix f assume "f \<notin> link w ` set ?names"
    then have "\<forall>k<length diagrams. f \<noteq> link w (mmd_name (0 + k))" unfolding s by auto
    from staged_other [OF this] show "contents ?w f = contents w f" by simp
  qed
  have 5: "\<forall>k<length diagrams.
             contents ?w (link w (str ''/tmp/diagram_'' @ show_nat (Suc k) @ str ''.mmd''))
               = Some (strip (diagrams ! k))"
    if "inj_on (link w) (set ?names)"
  proof (intro allI impI)
    fix k assume k: "k < length diagrams"
    from that have "inj_on (link w) (mmd_name ` {0..<0 + length diagrams})" unfolding s .
    from staged_written [OF this k, of "contents w"]
    show "contents ?w (link w (str ''/tmp/diagram_'' @ show_nat (Suc k) @ str ''.mmd''))
            = Some (strip (diagrams ! k))"
      by (simp add: m)
  qed
  have 6: "link ?w = link w" by simp
  have 7: "\<forall>k. set (show_nat k) \<subseteq> {48..57} \<and>
                foldl (\<lambda>a d. 10 * a + (d - 48)) 0 (show_nat k) = k"
    by (simp add: show_nat_digits show_nat_value)
  from 1 2 3 4 5 6 7 show ?thesis by blast
qed

theorem materializer_writes_ordinal_files_witness:
  "\<exists>w'. create_mermaid_files [str '' a '', str ''b'' @ [10]]
          \<lparr>contents = Map.empty, link = (\<lambda>path. path), stdout = [], written = [],
           invoked = [], read_raises = (\<lambda>path. None), write_raises = (\<lambda>path txt. None),
           print_raises = (\<lambda>printed line. None)\<rparr>
        = Inr ([str ''/tmp/diagram_1.mmd'', str ''/tmp/diagram_2.mmd''], w') \<and>
      written w' = [(str ''/tmp/diagram_1.mmd'', str ''a''), (str ''/tmp/diagram_2.mmd'', str ''b'')] \<and>
      contents w' (str ''/tmp/diagram_1.mmd'') = Some (str ''a'') \<and>
      contents w' (str ''/tmp/diagram_2.mmd'') = Some (str ''b'') \<and>
      contents w' (str ''/tmp/diagram_3.mmd'') = None"
proof -
  let ?w = "\<lparr>contents = Map.empty, link = (\<lambda>path. path), stdout = [], written = [],
           invoked = [], read_raises = (\<lambda>path. None), write_raises = (\<lambda>path txt. None),
           print_raises = (\<lambda>printed line. None)\<rparr>"
  let ?ds = "[str '' a '', str ''b'' @ [10]]"
  let ?names = "map (\<lambda>k. str ''/tmp/diagram_'' @ show_nat k @ str ''.mmd'') [1..<Suc (length ?ds)]"
  have h: "\<forall>k<length ?ds.
             write_raises ?w (str ''/tmp/diagram_'' @ show_nat (Suc k) @ str ''.mmd'')
               (strip (?ds ! k)) = None" by simp
  have n: "?names = [str ''/tmp/diagram_1.mmd'', str ''/tmp/diagram_2.mmd'']"
    by (simp add: show_nat.simps str_def upt_rec)
  have n1: "str ''/tmp/diagram_'' @ show_nat (Suc 0) @ str ''.mmd'' = str ''/tmp/diagram_1.mmd''"
    and n2: "str ''/tmp/diagram_'' @ show_nat (Suc (Suc 0)) @ str ''.mmd''
               = str ''/tmp/diagram_2.mmd''"
    by (simp_all add: show_nat.simps str_def)
  have s: "map strip ?ds = [str ''a'', str ''b'']"
    by (simp add: strip_def str_def is_space_def)
  have i: "inj_on (link ?w) (set ?names)" by simp
  have o: "str ''/tmp/diagram_3.mmd'' \<notin> link ?w ` set ?names"
    unfolding n by (simp add: str_def)
  from materializer_writes_ordinal_files [OF h] obtain w' where
    w': "create_mermaid_files ?ds ?w = Inr (?names, w')"
      "written w' = written ?w @ zip ?names (map strip ?ds)"
      "\<forall>f. f \<notin> link ?w ` set ?names \<longrightarrow> contents w' f = contents ?w f"
      "inj_on (link ?w) (set ?names) \<longrightarrow>
         (\<forall>k<length ?ds.
            contents w' (link ?w (str ''/tmp/diagram_'' @ show_nat (Suc k) @ str ''.mmd''))
              = Some (strip (?ds ! k)))"
    by blast
  from w'(4) i have c: "\<forall>k<length ?ds.
            contents w' (link ?w (str ''/tmp/diagram_'' @ show_nat (Suc k) @ str ''.mmd''))
              = Some (strip (?ds ! k))" by blast
  from c [rule_format, of 0] have c1: "contents w' (str ''/tmp/diagram_1.mmd'') = Some (str ''a'')"
    using s by (simp add: n1)
  from c [rule_format, of "Suc 0"]
  have c2: "contents w' (str ''/tmp/diagram_2.mmd'') = Some (str ''b'')"
    using s by (simp add: n2)
  from w'(3) o have c3: "contents w' (str ''/tmp/diagram_3.mmd'') = None" by simp
  from w'(1) have r: "create_mermaid_files ?ds ?w
      = Inr ([str ''/tmp/diagram_1.mmd'', str ''/tmp/diagram_2.mmd''], w')"
    unfolding n .
  from w'(2) have l: "written w'
      = [(str ''/tmp/diagram_1.mmd'', str ''a''), (str ''/tmp/diagram_2.mmd'', str ''b'')]"
    unfolding n s by simp
  from r l c1 c2 c3 show ?thesis by blast
qed

lemma strip_shape:
  "\<exists>l t. s = l @ strip s @ t \<and> list_all is_space l \<and> list_all is_space t \<and>
     (strip s \<noteq> [] \<longrightarrow> \<not> is_space (hd (strip s)) \<and> \<not> is_space (last (strip s)))"
proof -
  let ?l = "takeWhile is_space s" and ?m = "dropWhile is_space s"
  let ?t = "rev (takeWhile is_space (rev ?m))"
  have 1: "s = ?l @ ?m" by simp
  have 2: "?m = strip s @ ?t"
    unfolding strip_def
    by (metis rev_append rev_rev_ident takeWhile_dropWhile_id)
  have 3: "list_all is_space ?l" by (simp add: list_all_iff) (meson set_takeWhileD)
  have 4: "list_all is_space ?t" by (simp add: list_all_iff) (meson set_takeWhileD)
  have 5: "\<not> is_space (last (strip s))" if "strip s \<noteq> []"
  proof -
    from that have "dropWhile is_space (rev ?m) \<noteq> []" by (simp add: strip_def)
    then have "\<not> is_space (hd (dropWhile is_space (rev ?m)))" by (rule hd_dropWhile)
    then show ?thesis using that by (simp add: strip_def last_rev)
  qed
  have 6: "\<not> is_space (hd (strip s))" if "strip s \<noteq> []"
  proof -
    from that 2 have "?m \<noteq> []" by (metis Nil_is_append_conv)
    then have "\<not> is_space (hd ?m)" by (rule hd_dropWhile)
    moreover from 2 that have "hd ?m = hd (strip s)" by (metis hd_append2)
    ultimately show ?thesis by simp
  qed
  from 1 2 have "s = ?l @ strip s @ ?t" by simp
  with 3 4 5 6 show ?thesis by blast
qed

section \<open>The reading of a document\<close>

lemma fence_open_Cons: "fence_open = 96 # tl fence_open"
  by (simp add: fence_open_def str_def)

lemma length_fence_open [simp]: "length fence_open = 11"
  by (simp add: fence_open_def str_def)

lemma match_here_block:
  "no_start fence_close b (fence_close @ r) \<Longrightarrow>
     match_here (fence_open @ b @ fence_close @ r) = Some (b, r)"
  by (simp add: match_here_def find_first_first)

lemma re_search_first:
  "no_start fence_open g (fence_open @ b @ fence_close @ r) \<Longrightarrow>
   no_start fence_close b (fence_close @ r) \<Longrightarrow>
     re_search (g @ fence_open @ b @ fence_close @ r) = Some (g, b, r)"
proof (induction g)
  case Nil
  obtain cs where cs: "fence_open @ b @ fence_close @ r = 96 # cs"
    using fence_open_Cons by (metis append_Cons)
  from match_here_block [OF Nil.prems(2)] have "match_here (96 # cs) = Some (b, r)"
    by (simp add: cs)
  then have "re_search (96 # cs) = Some ([], b, r)" by simp
  with cs show ?case by simp
next
  case (Cons c g)
  from Cons.prems have "\<not> prefix fence_open (c # g @ fence_open @ b @ fence_close @ r)"
    and "no_start fence_open g (fence_open @ b @ fence_close @ r)" by simp_all
  with Cons.IH Cons.prems(2) show ?case by (simp add: match_here_def)
qed

lemma re_search_None: "no_block s \<Longrightarrow> re_search s = None"
proof (induction s)
  case Nil
  then show ?case by simp
next
  case (Cons c cs)
  then have "match_here (c # cs) = None"
    by (auto simp: match_here_def find_first_None_iff)
  with Cons show ?case by simp
qed

lemma re_search_None_no_block: "re_search s = None \<Longrightarrow> no_block s"
proof (induction s)
  case Nil
  then show ?case by simp
next
  case (Cons c cs)
  then have "match_here (c # cs) = None" "re_search cs = None"
    by (auto split: option.splits)
  with Cons.IH show ?case
    by (auto simp: match_here_def find_first_None_iff split: if_splits)
qed

lemma re_search_Some:
  "re_search s = Some (g, b, r) \<Longrightarrow>
     s = g @ fence_open @ b @ fence_close @ r \<and>
     no_start fence_open g (fence_open @ b @ fence_close @ r) \<and>
     no_start fence_close b (fence_close @ r)"
proof (induction s arbitrary: g)
  case Nil
  then show ?case by simp
next
  case (Cons c cs)
  show ?case
  proof (cases "match_here (c # cs)")
    case (Some t)
    with Cons.prems have "match_here (c # cs) = Some (b, r)" "g = []"
      by (auto split: prod.splits)
    with match_here_sound [of "c # cs" b r] show ?thesis by simp
  next
    case None
    with Cons.prems obtain g' where g': "re_search cs = Some (g', b, r)" "g = c # g'"
      by auto
    from Cons.IH [OF g'(1)] have ih: "cs = g' @ fence_open @ b @ fence_close @ r"
      "no_start fence_open g' (fence_open @ b @ fence_close @ r)"
      "no_start fence_close b (fence_close @ r)" by simp_all
    have "\<not> prefix fence_open (c # cs)"
    proof
      assume p: "prefix fence_open (c # cs)"
      with None have "\<not> sublist fence_close (drop 11 (c # cs))"
        by (simp add: match_here_def find_first_None_iff)
      moreover have "drop 11 (c # cs) = drop 11 (c # g' @ fence_open) @ b @ fence_close @ r"
        using ih(1) by simp
      moreover have "sublist fence_close ((drop 11 (c # g' @ fence_open) @ b) @ fence_close @ r)"
        by (rule sublist_appendI)
      ultimately show False by simp
    qed
    with ih g'(2) show ?thesis by simp
  qed
qed

lemma layout_exists: "\<exists>segs tail. s = doc segs tail \<and> scanned segs tail"
proof (induction s rule: extract_mermaid_diagrams.induct)
  case (1 s)
  show ?case
  proof (cases "re_search s")
    case None
    then have "s = doc [] s \<and> scanned [] s" by (simp add: re_search_None_no_block)
    then show ?thesis by blast
  next
    case (Some t)
    then obtain g b r where t: "re_search s = Some (g, b, r)" by (cases t) auto
    from 1 [OF t refl refl] obtain segs tail where r: "r = doc segs tail" "scanned segs tail"
      by blast
    from re_search_Some [OF t] r have "s = doc ((g, b) # segs) tail \<and> scanned ((g, b) # segs) tail"
      by (simp add: mermaid_block_fences)
    then show ?thesis by blast
  qed
qed

lemma extract_doc: "scanned segs tail \<Longrightarrow> extract_mermaid_diagrams (doc segs tail) = map snd segs"
proof (induction segs)
  case Nil
  then show ?case by (simp add: extract_Nil re_search_None)
next
  case (Cons a segs)
  obtain g b where a: "a = (g, b)" by (cases a)
  from Cons.prems a have "re_search (doc (a # segs) tail) = Some (g, b, doc segs tail)"
    using re_search_first [of g b "doc segs tail"] by (simp add: mermaid_block_fences)
  from extract_Cons [OF this] Cons a show ?case by simp
qed

section \<open>Bodies as extracted and as written\<close>

text \<open>
  Claim C7. In a document read as gaps, bodies and tail, the extractor returns each
  body exactly as it stands between its fences, white space at both ends included.
  Provided no write raises, the text the materializer writes for the \<open>k\<close>-th body, to
  \<^verbatim>\<open>/tmp/diagram_k.mmd\<close>, is \<open>strip body\<close>, and the file holds it afterwards when no path
  is a link to the file of another. \<open>strip body\<close> is the body without the white space at
  its two ends: the body is \<open>l @ strip body @ t\<close> with \<open>l\<close> and \<open>t\<close> white space only, and
  \<open>strip body\<close> neither begins nor ends with white space.
\<close>

theorem body_kept_file_stripped:
  assumes "scanned segs tail"
    and "\<forall>k<length segs.
           write_raises w (str ''/tmp/diagram_'' @ show_nat (Suc k) @ str ''.mmd'')
             (strip (snd (segs ! k))) = None"
  shows "extract_mermaid_diagrams (doc segs tail) = map snd segs \<and>
         (\<exists>w'. create_mermaid_files (extract_mermaid_diagrams (doc segs tail)) w
                  = Inr (map (\<lambda>k. str ''/tmp/diagram_'' @ show_nat k @ str ''.mmd'')
                           [1..<Suc (length segs)], w') \<and>
            written w'
              = written w @
                zip (map (\<lambda>k. str ''/tmp/diagram_'' @ show_nat k @ str ''.mmd'')
                       [1..<Suc (length segs)])
                    (map (\<lambda>(gap, body). strip body) segs) \<and>
            (inj_on (link w) (set (map (\<lambda>k. str ''/tmp/diagram_'' @ show_nat k @ str ''.mmd'')
                                     [1..<Suc (length segs)])) \<longrightarrow>
               (\<forall>k<length segs.
                  contents w' (link w (str ''/tmp/diagram_'' @ show_nat (Suc k) @ str ''.mmd''))
                    = Some (strip (snd (segs ! k)))))) \<and>
         (\<forall>k<length segs. \<exists>l t. snd (segs ! k) = l @ strip (snd (segs ! k)) @ t \<and>
            list_all is_space l \<and> list_all is_space t \<and>
            (strip (snd (segs ! k)) \<noteq> [] \<longrightarrow>
               \<not> is_space (hd (strip (snd (segs ! k)))) \<and>
               \<not> is_space (last (strip (snd (segs ! k))))))"
proof -
  have e: "extract_mermaid_diagrams (doc segs tail) = map snd segs"
    using assms(1) by (rule extract_doc)
  let ?ds = "map snd segs"
  let ?names = "map (\<lambda>k. str ''/tmp/diagram_'' @ show_nat k @ str ''.mmd'') [1..<Suc (length segs)]"
  let ?w = "w\<lparr>contents := staged 0 ?ds (link w) (contents w),
              written := written w @ zip (map mmd_name [0..<length ?ds]) (map strip ?ds)\<rparr>"
  have n: "map mmd_name [0..<length ?ds] = ?names"
    using mmd_names_ordinals [of "length segs"] by simp
  have m: "mmd_name k = str ''/tmp/diagram_'' @ show_nat (Suc k) @ str ''.mmd''" for k
    by (simp add: mmd_name_def)
  have s: "set ?names = mmd_name ` {0..<0 + length ?ds}"
    unfolding n [symmetric] by simp
  from assms(2) have "\<forall>k<length ?ds. write_raises w (mmd_name k) (strip (?ds ! k)) = None"
    by (simp add: m)
  then have "create_mermaid_files ?ds w = Inr (map mmd_name [0..<length ?ds], ?w)"
    by (rule create_mermaid_files_ok)
  then have 1: "create_mermaid_files (extract_mermaid_diagrams (doc segs tail)) w
                  = Inr (?names, ?w)"
    unfolding e n .
  have ms: "map strip ?ds = map (\<lambda>(gap, body). strip body) segs"
    by (induction segs) auto
  have "written ?w = written w @ zip (map mmd_name [0..<length ?ds]) (map strip ?ds)"
    by simp
  then have 2: "written ?w = written w @ zip ?names (map (\<lambda>(gap, body). strip body) segs)"
    unfolding n ms .
  have 3: "\<forall>k<length segs.
             contents ?w (link w (str ''/tmp/diagram_'' @ show_nat (Suc k) @ str ''.mmd''))
               = Some (strip (snd (segs ! k)))"
    if "inj_on (link w) (set ?names)"
  proof (intro allI impI)
    fix k assume k: "k < length segs"
    then have k': "k < length ?ds" by simp
    from that have "inj_on (link w) (mmd_name ` {0..<0 + length ?ds})" unfolding s .
    from staged_written [OF this k', of "contents w"] k
    show "contents ?w (link w (str ''/tmp/diagram_'' @ show_nat (Suc k) @ str ''.mmd''))
            = Some (strip (snd (segs ! k)))"
      by (simp add: m)
  qed
  from e 1 2 3 strip_shape show ?thesis by blast
qed

theorem body_kept_file_stripped_witness:
  "scanned [(str ''# T'' @ [10], [32, 9] @ str ''A  '' @ [13])] (str ''end'') \<and>
   extract_mermaid_diagrams
     (str ''# T'' @ [10] @ str ''```mermaid'' @ [10] @ [32, 9] @ str ''A  '' @ [13] @ [10]
        @ str ''```'' @ str ''end'')
     = [[32, 9] @ str ''A  '' @ [13]] \<and>
   (\<exists>w'. create_mermaid_files [[32, 9] @ str ''A  '' @ [13]]
            \<lparr>contents = Map.empty, link = (\<lambda>path. path), stdout = [], written = [],
             invoked = [], read_raises = (\<lambda>path. None), write_raises = (\<lambda>path txt. None),
             print_raises = (\<lambda>printed line. None)\<rparr>
           = Inr ([str ''/tmp/diagram_1.mmd''], w') \<and>
         written w' = [(str ''/tmp/diagram_1.mmd'', str ''A'')] \<and>
         contents w' (str ''/tmp/diagram_1.mmd'') = Some (str ''A''))"
proof -
  let ?b = "[32, 9] @ str ''A  '' @ [13]"
  let ?segs = "[(str ''# T'' @ [10], ?b)]"
  let ?w = "\<lparr>contents = Map.empty, link = (\<lambda>path. path), stdout = [], written = [],
             invoked = [], read_raises = (\<lambda>path. None), write_raises = (\<lambda>path txt. None),
             print_raises = (\<lambda>printed line. None)\<rparr>"
  let ?names = "map (\<lambda>k. str ''/tmp/diagram_'' @ show_nat k @ str ''.mmd'') [1..<Suc (length ?segs)]"
  have h1: "scanned ?segs (str ''end'')"
    by (simp add: str_def fence_open_def fence_close_def mermaid_block_def)
  have h2: "\<forall>k<length ?segs.
           write_raises ?w (str ''/tmp/diagram_'' @ show_nat (Suc k) @ str ''.mmd'')
             (strip (snd (?segs ! k))) = None" by simp
  have d: "doc ?segs (str ''end'') =
      str ''# T'' @ [10] @ str ''```mermaid'' @ [10] @ [32, 9] @ str ''A  '' @ [13] @ [10]
        @ str ''```'' @ str ''end''"
    by (simp add: mermaid_block_def)
  have s: "strip ?b = str ''A''"
    by (simp add: strip_def str_def is_space_def)
  have n: "?names = [str ''/tmp/diagram_1.mmd'']"
    by (simp add: show_nat.simps str_def)
  have n1: "str ''/tmp/diagram_'' @ show_nat (Suc 0) @ str ''.mmd'' = str ''/tmp/diagram_1.mmd''"
    by (simp add: show_nat.simps str_def)
  have i: "inj_on (link ?w) (set ?names)" by simp
  from body_kept_file_stripped [OF h1 h2]
  have e: "extract_mermaid_diagrams (doc ?segs (str ''end'')) = map snd ?segs"
    and "\<exists>w'. create_mermaid_files (extract_mermaid_diagrams (doc ?segs (str ''end''))) ?w
                  = Inr (?names, w') \<and>
            written w' = written ?w @ zip ?names (map (\<lambda>(gap, body). strip body) ?segs) \<and>
            (inj_on (link ?w) (set ?names) \<longrightarrow>
               (\<forall>k<length ?segs.
                  contents w' (link ?w (str ''/tmp/diagram_'' @ show_nat (Suc k) @ str ''.mmd''))
                    = Some (strip (snd (?segs ! k)))))"
    by blast+
  then obtain w' where w':
    "create_mermaid_files (extract_mermaid_diagrams (doc ?segs (str ''end''))) ?w
       = Inr (?names, w')"
    "written w' = written ?w @ zip ?names (map (\<lambda>(gap, body). strip body) ?segs)"
    "inj_on (link ?w) (set ?names) \<longrightarrow>
       (\<forall>k<length ?segs.
          contents w' (link ?w (str ''/tmp/diagram_'' @ show_nat (Suc k) @ str ''.mmd''))
            = Some (strip (snd (?segs ! k))))"
    by blast
  from w'(3) i have "\<forall>k<length ?segs.
          contents w' (link ?w (str ''/tmp/diagram_'' @ show_nat (Suc k) @ str ''.mmd''))
            = Some (strip (snd (?segs ! k)))" by blast
  from this [rule_format, of 0] have c: "contents w' (str ''/tmp/diagram_1.mmd'') = Some (str ''A'')"
    using s by (simp add: n1)
  from w'(1) have r: "create_mermaid_files [?b] ?w = Inr ([str ''/tmp/diagram_1.mmd''], w')"
    unfolding e n by simp
  from w'(2) have l: "written w' = [(str ''/tmp/diagram_1.mmd'', str ''A'')]"
    unfolding n using s by simp
  from e have e': "extract_mermaid_diagrams
     (str ''# T'' @ [10] @ str ''```mermaid'' @ [10] @ [32, 9] @ str ''A  '' @ [13] @ [10]
        @ str ''```'' @ str ''end'') = [?b]"
    unfolding d by simp
  from h1 e' r l c show ?thesis by blast
qed

section \<open>Occurrences and the positions where they may begin\<close>

lemma no_start_iff: "no_start P T X \<longleftrightarrow> (\<forall>q<length T. \<not> prefix P (drop q (T @ X)))"
proof (induction T)
  case Nil
  then show ?case by simp
next
  case (Cons c T)
  show ?case
  proof
    assume a: "no_start P (c # T) X"
    show "\<forall>q<length (c # T). \<not> prefix P (drop q ((c # T) @ X))"
    proof (intro allI impI)
      fix q assume "q < length (c # T)"
      with a Cons show "\<not> prefix P (drop q ((c # T) @ X))" by (cases q) auto
    qed
  next
    assume a: "\<forall>q<length (c # T). \<not> prefix P (drop q ((c # T) @ X))"
    then have "\<not> prefix P (drop 0 ((c # T) @ X))" by blast
    moreover have "\<forall>q<length T. \<not> prefix P (drop q (T @ X))"
    proof (intro allI impI)
      fix q assume "q < length T"
      then have "Suc q < length (c # T)" by simp
      with a have "\<not> prefix P (drop (Suc q) ((c # T) @ X))" by blast
      then show "\<not> prefix P (drop q (T @ X))" by simp
    qed
    ultimately show "no_start P (c # T) X" using Cons by simp
  qed
qed

lemma no_start_append:
  "no_start P (A @ B) X \<longleftrightarrow> no_start P A (B @ X) \<and> no_start P B X"
  by (induction A) auto

lemma prefix_cross:
  assumes "prefix P (A @ Y)" and "Y \<noteq> []" and "hd Y \<notin> set P"
  shows "prefix P A"
proof (rule ccontr)
  assume n: "\<not> prefix P A"
  with assms(1) obtain us where us: "P = A @ us" "prefix us Y"
    by (auto simp: prefix_append)
  with n have "us \<noteq> []" by auto
  with us(2) assms(2) have "hd us = hd Y"
    by (metis hd_append2 prefix_def)
  moreover from \<open>us \<noteq> []\<close> us(1) have "hd us \<in> set P" by simp
  ultimately show False using assms(3) by simp
qed

lemma no_start_cross:
  "no_start P A X \<Longrightarrow> Y \<noteq> [] \<Longrightarrow> hd Y \<notin> set P \<Longrightarrow> no_start P A Y"
proof (induction A)
  case Nil
  then show ?case by simp
next
  case (Cons c A)
  have "\<not> prefix P (c # A @ Y)"
  proof
    assume "prefix P (c # A @ Y)"
    then have "prefix P ((c # A) @ Y)" by simp
    from prefix_cross [OF this Cons.prems(2,3)] have "prefix P (c # A)" .
    then have "prefix P (c # A @ X)" by (metis append_Cons prefix_prefix)
    with Cons.prems(1) show False by simp
  qed
  with Cons show ?case by simp
qed

lemma no_start_hd: "P \<noteq> [] \<Longrightarrow> hd P \<notin> set T \<Longrightarrow> no_start P T X"
proof (induction T)
  case Nil
  then show ?case by simp
next
  case (Cons c T)
  then have "\<not> prefix P (c # T @ X)"
    by (cases P) auto
  with Cons show ?case by simp
qed

lemma no_start_not_sublist: "\<not> sublist P T \<Longrightarrow> no_start P T []"
proof (induction T)
  case Nil
  then show ?case by simp
next
  case (Cons c T)
  then show ?case by (auto simp: sublist_Cons_right)
qed

lemma no_start_mono: "prefix P Q \<Longrightarrow> no_start P T X \<Longrightarrow> no_start Q T X"
  by (induction T) (auto dest: prefix_order.trans)

section \<open>The substituter on a document read as gaps and blocks\<close>

lemma fence_open_chars: "set fence_open = {96, 109, 101, 114, 97, 105, 100, 10}"
  by (auto simp: fence_open_def str_def)

lemma fence_open_hd: "fence_open \<noteq> []" "hd fence_open = 96"
  by (simp_all add: fence_open_def str_def)

lemma image_ref_parts:
  "image_ref i img = (str ''![Diagram '' @ show_nat (i + 1) @ str '']('') @ img @ [41]"
  by (simp add: image_ref_def str_def)

lemma image_ref_hd: "image_ref i img \<noteq> []" "hd (image_ref i img) = 33"
  by (simp_all add: image_ref_def str_def)

lemma no_start_image_ref:
  assumes "\<not> sublist fence_open img"
  shows "no_start fence_open (image_ref i img) X"
proof -
  have d: "96 \<notin> set (show_nat (i + 1))" using show_nat_digits [of "i + 1"] by auto
  have 1: "no_start fence_open (str ''![Diagram '' @ show_nat (i + 1) @ str '']('') (img @ [41] @ X)"
    by (rule no_start_hd) (use d in \<open>simp_all add: fence_open_hd str_def\<close>)
  have "no_start fence_open img []" using assms by (rule no_start_not_sublist)
  then have 2: "no_start fence_open img ([41] @ X)"
    by (rule no_start_cross) (simp_all add: fence_open_chars)
  have 3: "no_start fence_open [41] X"
    by (rule no_start_hd) (simp_all add: fence_open_hd)
  from 1 2 3 show ?thesis
    unfolding image_ref_parts by (simp only: no_start_append) simp
qed

lemma prefix_block: "prefix fence_open (mermaid_block b)"
  by (simp add: mermaid_block_fences)

lemma enhance_loop_past: "length imgs \<le> i \<Longrightarrow> enhance_loop i ds imgs e = e"
  by (induction ds arbitrary: i) auto

lemma substituted_past: "length imgs \<le> i \<Longrightarrow> substituted i imgs segs tail = doc segs tail"
  by (induction segs arbitrary: i) auto

lemma extract_step:
  "\<not> prefix fence_open (c # s) \<Longrightarrow> extract_mermaid_diagrams (c # s) = extract_mermaid_diagrams s"
  by (simp add: extract_mermaid_diagrams.simps [of "c # s"] extract_mermaid_diagrams.simps [of s]
        match_here_def split: option.splits)

lemma extract_skip:
  "no_start fence_open T X \<Longrightarrow> extract_mermaid_diagrams (T @ X) = extract_mermaid_diagrams X"
  by (induction T) (auto simp: extract_step)

lemma replace_first_at:
  "no_start old pre (old @ post) \<Longrightarrow> replace_first old new (pre @ old @ post) = pre @ new @ post"
  by (simp add: replace_first_def find_first_first)

lemma enhance_loop_substituted:
  assumes "scanned segs tail"
    and "no_start fence_open T (doc segs tail)"
    and "\<forall>j<length segs. i + j < length imgs \<longrightarrow> \<not> sublist fence_open (imgs ! (i + j))"
  shows "enhance_loop i (map snd segs) imgs (T @ doc segs tail) = T @ substituted i imgs segs tail \<and>
         extract_mermaid_diagrams (T @ substituted i imgs segs tail)
           = drop (length imgs - i) (map snd segs)"
  using assms
proof (induction segs arbitrary: i T)
  case Nil
  then show ?case by (simp add: extract_skip extract_Nil re_search_None)
next
  case (Cons a segs)
  obtain g b where a: "a = (g, b)" by (cases a)
  let ?R = "doc segs tail"
  from Cons.prems(1) a have sc: "no_start fence_open g (mermaid_block b @ ?R)"
    "scanned segs tail" by simp_all
  show ?case
  proof (cases "i < length imgs")
    case True
    let ?ref = "image_ref i (imgs ! i)"
    from Cons.prems(2) a sc(1) have tg: "no_start fence_open (T @ g) (mermaid_block b @ ?R)"
      by (simp add: no_start_append)
    then have "no_start (mermaid_block b) (T @ g) (mermaid_block b @ ?R)"
      using prefix_block by (rule no_start_mono [rotated])
    from replace_first_at [OF this]
    have rep: "replace_first (mermaid_block b) ?ref (T @ doc (a # segs) tail) = (T @ g @ ?ref) @ ?R"
      by (simp add: a)
    from Cons.prems(3) [rule_format, of 0] True have free: "\<not> sublist fence_open (imgs ! i)"
      by simp
    from tg have "no_start fence_open (T @ g) (?ref @ ?R)"
      by (rule no_start_cross) (simp_all add: image_ref_hd fence_open_chars)
    with no_start_image_ref [OF free] have inv: "no_start fence_open (T @ g @ ?ref) ?R"
      using no_start_append [of fence_open "T @ g" ?ref ?R] by simp
    have rest: "\<forall>j<length segs. (i + 1) + j < length imgs
        \<longrightarrow> \<not> sublist fence_open (imgs ! ((i + 1) + j))"
    proof (intro allI impI)
      fix j assume "j < length segs" "(i + 1) + j < length imgs"
      with Cons.prems(3) [rule_format, of "Suc j"] show "\<not> sublist fence_open (imgs ! ((i + 1) + j))"
        by simp
    qed
    from Cons.IH [OF sc(2) inv rest]
    have ih: "enhance_loop (i + 1) (map snd segs) imgs ((T @ g @ ?ref) @ ?R)
                = (T @ g @ ?ref) @ substituted (i + 1) imgs segs tail"
      "extract_mermaid_diagrams ((T @ g @ ?ref) @ substituted (i + 1) imgs segs tail)
         = drop (length imgs - (i + 1)) (map snd segs)" by simp_all
    have 1: "enhance_loop i (map snd (a # segs)) imgs (T @ doc (a # segs) tail)
               = T @ substituted i imgs (a # segs) tail"
      using True rep ih(1) by (simp add: a)
    from True have "length imgs - i = Suc (length imgs - (i + 1))" by simp
    then have 2: "extract_mermaid_diagrams (T @ substituted i imgs (a # segs) tail)
               = drop (length imgs - i) (map snd (a # segs))"
      using True ih(2) by (simp add: a)
    from 1 2 show ?thesis ..
  next
    case False
    then have p: "length imgs \<le> i" by simp
    have 1: "enhance_loop i (map snd (a # segs)) imgs (T @ doc (a # segs) tail)
               = T @ substituted i imgs (a # segs) tail"
      by (simp only: enhance_loop_past [OF p] substituted_past [OF p])
    have "extract_mermaid_diagrams (T @ doc (a # segs) tail) = map snd (a # segs)"
      using extract_skip [OF Cons.prems(2)] extract_doc [OF Cons.prems(1)] by simp
    then have 2: "extract_mermaid_diagrams (T @ substituted i imgs (a # segs) tail)
               = drop (length imgs - i) (map snd (a # segs))"
      using p by (simp only: substituted_past [OF p]) simp
    from 1 2 show ?thesis ..
  qed
qed

lemma first_occurrence_le:
  assumes "no_start P pre (P @ post)" and "pre @ P @ post = A @ P @ R"
  shows "length pre \<le> length A"
proof (rule ccontr)
  assume "\<not> length pre \<le> length A"
  then have "length A < length pre" by simp
  moreover from assms(1) have "\<forall>q<length pre. \<not> prefix P (drop q (pre @ P @ post))"
    by (simp only: no_start_iff)
  ultimately have "\<not> prefix P (drop (length A) (pre @ P @ post))" by blast
  then show False unfolding assms(2) by simp
qed

lemma replace_first_occurs:
  "\<exists>pre post X. A @ P @ R = pre @ P @ post \<and> no_start P pre (P @ post) \<and>
     replace_first P new (A @ P @ R) = pre @ new @ post \<and> post = X @ R"
proof -
  have "sublist P (A @ P @ R)" by (rule sublist_appendI)
  then obtain pre post where f: "find_first P (A @ P @ R) = Some (pre, post)"
    using find_first_None_iff [of P "A @ P @ R"] by (cases "find_first P (A @ P @ R)") auto
  from find_first_sound [OF f] have s: "A @ P @ R = pre @ P @ post"
    "no_start P pre (P @ post)" by simp_all
  from first_occurrence_le [OF s(2) s(1) [symmetric]] have le: "length pre \<le> length A" .
  have "post = drop (length pre + length P) (pre @ P @ post)" by simp
  also have "\<dots> = drop (length pre + length P) ((A @ P) @ R)" using s(1) by simp
  also have "\<dots> = drop (length pre + length P) (A @ P) @ R" using le by simp
  finally have "post = drop (length pre + length P) (A @ P) @ R" .
  moreover from f have "replace_first P new (A @ P @ R) = pre @ new @ post"
    by (simp add: replace_first_def)
  ultimately show ?thesis using s by blast
qed

lemma doc_append: "doc (A @ B) tail = doc A (doc B tail)"
  by (induction A) auto

lemma enhance_loop_suffix:
  "\<exists>T'. enhance_loop i (map snd segs) imgs (T @ doc segs tail)
          = T' @ doc (drop (length imgs - i) segs) tail"
proof (induction segs arbitrary: i T)
  case Nil
  then show ?case by simp
next
  case (Cons a segs)
  obtain g b where a: "a = (g, b)" by (cases a)
  show ?case
  proof (cases "i < length imgs")
    case True
    let ?ref = "image_ref i (imgs ! i)"
    from replace_first_occurs [of "T @ g" "mermaid_block b" "doc segs tail" ?ref]
    obtain pre X where
      "replace_first (mermaid_block b) ?ref ((T @ g) @ mermaid_block b @ doc segs tail)
         = pre @ ?ref @ X @ doc segs tail" by blast
    then have rep: "replace_first (mermaid_block b) ?ref (T @ doc (a # segs) tail)
         = (pre @ ?ref @ X) @ doc segs tail" by (simp add: a)
    from Cons.IH [of "i + 1" "pre @ ?ref @ X"] obtain T' where
      "enhance_loop (i + 1) (map snd segs) imgs ((pre @ ?ref @ X) @ doc segs tail)
         = T' @ doc (drop (length imgs - (i + 1)) segs) tail" by blast
    moreover from True have "length imgs - i = Suc (length imgs - (i + 1))" by simp
    ultimately have "enhance_loop i (map snd (a # segs)) imgs (T @ doc (a # segs) tail)
         = T' @ doc (drop (length imgs - i) (a # segs)) tail"
      using True rep by (simp add: a)
    then show ?thesis by blast
  next
    case False
    then have "enhance_loop i (map snd (a # segs)) imgs (T @ doc (a # segs) tail)
         = T @ doc (drop (length imgs - i) (a # segs)) tail"
      by (simp add: enhance_loop_past)
    then show ?thesis by blast
  qed
qed

lemma enhance_loop_snoc:
  "enhance_loop i (ds @ [d]) imgs e =
     (if i + length ds < length imgs
      then replace_first (mermaid_block d) (image_ref (i + length ds) (imgs ! (i + length ds)))
             (enhance_loop i ds imgs e)
      else enhance_loop i ds imgs e)"
  by (induction ds arbitrary: i e) auto

lemma walk_Suc:
  assumes "k < length (extract_mermaid_diagrams content)"
  shows "walk imgs content (Suc k) =
          (if k < length imgs
           then replace_first (mermaid_block (extract_mermaid_diagrams content ! k))
                  (image_ref k (imgs ! k)) (walk imgs content k)
           else walk imgs content k)"
  using assms
  by (simp add: walk_def take_Suc_conv_app_nth enhance_loop_snoc min_absorb2)

lemma walk_shape:
  assumes "scanned segs tail" and "k \<le> length imgs" and "k < length segs"
  shows "\<exists>T. walk imgs (doc segs tail) k
           = T @ mermaid_block (snd (segs ! k)) @ doc (drop (Suc k) segs) tail"
proof -
  have e: "extract_mermaid_diagrams (doc segs tail) = map snd segs"
    using assms(1) by (rule extract_doc)
  have d: "doc segs tail = [] @ doc (take k segs) (doc (drop k segs) tail)"
    by (simp add: doc_append [symmetric])
  from enhance_loop_suffix [of 0 "take k segs" imgs "[]" "doc (drop k segs) tail"]
  obtain T where "enhance_loop 0 (map snd (take k segs)) imgs
        ([] @ doc (take k segs) (doc (drop k segs) tail))
      = T @ doc (drop (length imgs - 0) (take k segs)) (doc (drop k segs) tail)" by blast
  with assms(2) have "walk imgs (doc segs tail) k = T @ doc (drop k segs) tail"
    unfolding walk_def e d [symmetric] by (simp add: take_map)
  moreover obtain g b where gb: "segs ! k = (g, b)" by (cases "segs ! k")
  moreover from assms(3) have "drop k segs = segs ! k # drop (Suc k) segs"
    by (simp add: Cons_nth_drop_Suc)
  ultimately have "walk imgs (doc segs tail) k
      = (T @ g) @ mermaid_block (snd (segs ! k)) @ doc (drop (Suc k) segs) tail" by simp
  then show ?thesis by blast
qed

lemma substituted_all:
  "i + length segs \<le> length imgs \<Longrightarrow> substituted i imgs segs tail = with_images i imgs segs tail"
  by (induction segs arbitrary: i) auto

lemma no_backtick_no_fence: "96 \<notin> set s \<Longrightarrow> \<not> sublist fence_open s"
proof
  assume a: "96 \<notin> set s" and b: "sublist fence_open s"
  from b have "set fence_open \<subseteq> set s" by (rule set_mono_sublist)
  with a show False by (auto simp: fence_open_chars)
qed

section \<open>What the substituter does\<close>

lemma show_nat_not_Nil: "show_nat n \<noteq> []"
  by (simp add: show_nat.simps [of n])

lemma show_nat_leading: "0 < n \<Longrightarrow> hd (show_nat n) \<noteq> 48"
proof (induction n rule: show_nat.induct)
  case (1 n)
  show ?case
  proof (cases "n < 10")
    case True
    with 1(2) show ?thesis by (simp add: show_nat.simps [of n])
  next
    case False
    then have "0 < n div 10" by simp
    with 1(1) False have "hd (show_nat (n div 10)) \<noteq> 48" by simp
    with False show ?thesis
      by (simp add: show_nat.simps [of n] show_nat_not_Nil)
  qed
qed

lemma substituter_steps:
  "walk image_files content 0 = content \<and>
   create_enhanced_markdown content image_files
     = walk image_files content (length (extract_mermaid_diagrams content)) \<and>
   (\<forall>k<length (extract_mermaid_diagrams content). k < length image_files \<longrightarrow>
      (\<exists>pre post.
         walk image_files content k
           = pre @ mermaid_block (extract_mermaid_diagrams content ! k) @ post \<and>
         no_start (mermaid_block (extract_mermaid_diagrams content ! k)) pre
           (mermaid_block (extract_mermaid_diagrams content ! k) @ post) \<and>
         walk image_files content (Suc k) = pre @ image_ref k (image_files ! k) @ post)) \<and>
   (\<forall>k<length (extract_mermaid_diagrams content). length image_files \<le> k \<longrightarrow>
      walk image_files content (Suc k) = walk image_files content k) \<and>
   (\<exists>segs tail T. content = doc segs tail \<and> scanned segs tail \<and>
      create_enhanced_markdown content image_files
        = T @ doc (drop (length image_files) segs) tail)"
proof -
  let ?ds = "extract_mermaid_diagrams content"
  obtain segs tail where l: "content = doc segs tail" "scanned segs tail"
    using layout_exists by blast
  then have e: "?ds = map snd segs" by (simp add: extract_doc)
  have 1: "walk image_files content 0 = content" by (simp add: walk_def)
  have 2: "create_enhanced_markdown content image_files = walk image_files content (length ?ds)"
    by (simp add: walk_def create_enhanced_markdown_def)
  have 3: "\<exists>pre post.
         walk image_files content k = pre @ mermaid_block (?ds ! k) @ post \<and>
         no_start (mermaid_block (?ds ! k)) pre (mermaid_block (?ds ! k) @ post) \<and>
         walk image_files content (Suc k) = pre @ image_ref k (image_files ! k) @ post"
    if "k < length ?ds" "k < length image_files" for k
  proof -
    from that e have k: "k < length segs" "k \<le> length image_files" by simp_all
    from walk_shape [OF l(2) k(2) k(1)] obtain T where
      T: "walk image_files content k
            = T @ mermaid_block (snd (segs ! k)) @ doc (drop (Suc k) segs) tail"
      unfolding l(1) by blast
    from k(1) e have b: "?ds ! k = snd (segs ! k)" by simp
    from replace_first_occurs [of T "mermaid_block (?ds ! k)" "doc (drop (Suc k) segs) tail"
        "image_ref k (image_files ! k)"]
    obtain pre post where p:
      "T @ mermaid_block (?ds ! k) @ doc (drop (Suc k) segs) tail
         = pre @ mermaid_block (?ds ! k) @ post"
      "no_start (mermaid_block (?ds ! k)) pre (mermaid_block (?ds ! k) @ post)"
      "replace_first (mermaid_block (?ds ! k)) (image_ref k (image_files ! k))
         (T @ mermaid_block (?ds ! k) @ doc (drop (Suc k) segs) tail)
         = pre @ image_ref k (image_files ! k) @ post" by blast
    from T b p(1) have w: "walk image_files content k = pre @ mermaid_block (?ds ! k) @ post"
      by simp
    from T b p(3) that have w': "walk image_files content (Suc k)
         = pre @ image_ref k (image_files ! k) @ post"
      by (simp add: walk_Suc)
    from w p(2) w' show ?thesis by blast
  qed
  have 4: "walk image_files content (Suc k) = walk image_files content k"
    if "k < length ?ds" "length image_files \<le> k" for k
    using that by (simp add: walk_Suc)
  from enhance_loop_suffix [of 0 segs image_files "[]" tail] obtain T where
    "enhance_loop 0 (map snd segs) image_files (doc segs tail)
       = T @ doc (drop (length image_files) segs) tail" by auto
  with e l(1) have
    "create_enhanced_markdown content image_files = T @ doc (drop (length image_files) segs) tail"
    by (simp add: create_enhanced_markdown_def)
  with l have 5: "\<exists>segs tail T. content = doc segs tail \<and> scanned segs tail \<and>
      create_enhanced_markdown content image_files
        = T @ doc (drop (length image_files) segs) tail" by blast
  from 1 2 3 4 5 show ?thesis by blast
qed


text \<open>
  Claim C1. The substituter visits the extracted bodies in extraction order, starting
  from the document itself, and returns the text reached after the last one. At an
  index \<open>k\<close> below the number of image paths the text held has an occurrence of the
  fenced block of body \<open>k\<close> (the opening fence, a line feed, the body, a line feed, the
  closing fence); the leftmost one (no occurrence begins before it) is replaced by the
  line \<^verbatim>\<open>![Diagram \<close>, the decimal numeral of \<open>k + 1\<close>, \<^verbatim>\<open>](\<close>, image path \<open>k\<close>, \<^verbatim>\<open>)\<close>, and
  nothing else changes. The numeral has decimal digits only, no leading zero, and the
  value \<open>k + 1\<close>. At an index not below the number of image paths the text is left as
  it is. The part of the document after the last block so replaced, with all later
  blocks, stands unchanged at the end of the result. The input is a value and is not
  changed.
\<close>

theorem substituter_walk:
  "walk image_files content 0 = content \<and>
   create_enhanced_markdown content image_files
     = walk image_files content (length (extract_mermaid_diagrams content)) \<and>
   (\<forall>k<length (extract_mermaid_diagrams content). k < length image_files \<longrightarrow>
      (\<exists>pre post.
         walk image_files content k
           = pre @ (str ''```mermaid'' @ [10] @ extract_mermaid_diagrams content ! k @ [10]
                      @ str ''```'') @ post \<and>
         no_start (str ''```mermaid'' @ [10] @ extract_mermaid_diagrams content ! k @ [10]
                     @ str ''```'') pre
           ((str ''```mermaid'' @ [10] @ extract_mermaid_diagrams content ! k @ [10]
               @ str ''```'') @ post) \<and>
         walk image_files content (Suc k)
           = pre @ (str ''![Diagram '' @ show_nat (Suc k) @ str '']('' @ image_files ! k
                      @ str '')'') @ post)) \<and>
   (\<forall>k. set (show_nat (Suc k)) \<subseteq> {48..57} \<and> hd (show_nat (Suc k)) \<noteq> 48 \<and>
        foldl (\<lambda>a d. 10 * a + (d - 48)) 0 (show_nat (Suc k)) = Suc k) \<and>
   (\<forall>k<length (extract_mermaid_diagrams content). length image_files \<le> k \<longrightarrow>
      walk image_files content (Suc k) = walk image_files content k) \<and>
   (\<exists>segs tail T. content = doc segs tail \<and> scanned segs tail \<and>
      create_enhanced_markdown content image_files
        = T @ doc (drop (length image_files) segs) tail)"
proof -
  note s = substituter_steps [of image_files content]
  have d: "\<forall>k. set (show_nat (Suc k)) \<subseteq> {48..57} \<and> hd (show_nat (Suc k)) \<noteq> 48 \<and>
        foldl (\<lambda>a d. 10 * a + (d - 48)) 0 (show_nat (Suc k)) = Suc k"
    by (simp add: show_nat_digits show_nat_leading show_nat_value)
  from s have 3: "\<forall>k<length (extract_mermaid_diagrams content). k < length image_files \<longrightarrow>
      (\<exists>pre post.
         walk image_files content k
           = pre @ (str ''```mermaid'' @ [10] @ extract_mermaid_diagrams content ! k @ [10]
                      @ str ''```'') @ post \<and>
         no_start (str ''```mermaid'' @ [10] @ extract_mermaid_diagrams content ! k @ [10]
                     @ str ''```'') pre
           ((str ''```mermaid'' @ [10] @ extract_mermaid_diagrams content ! k @ [10]
               @ str ''```'') @ post) \<and>
         walk image_files content (Suc k)
           = pre @ (str ''![Diagram '' @ show_nat (Suc k) @ str '']('' @ image_files ! k
                      @ str '')'') @ post)"
    unfolding mermaid_block_def image_ref_def Suc_eq_plus1 by blast
  from s 3 d show ?thesis by blast
qed
theorem substituter_walk_witness:
  "create_enhanced_markdown
     (str ''x```mermaid'' @ [10] @ str ''A'' @ [10] @ str ''```y```mermaid'' @ [10] @ str ''B''
        @ [10] @ str ''```z'')
     [str ''p.png'']
   = str ''x![Diagram 1](p.png)y```mermaid'' @ [10] @ str ''B'' @ [10] @ str ''```z''"
proof -
  let ?c = "str ''x```mermaid'' @ [10] @ str ''A'' @ [10] @ str ''```y```mermaid'' @ [10] @ str ''B''
            @ [10] @ str ''```z''"
  let ?imgs = "[str ''p.png'']"
  let ?blk = "str ''```mermaid'' @ [10] @ str ''A'' @ [10] @ str ''```''"
  let ?rest = "str ''y```mermaid'' @ [10] @ str ''B'' @ [10] @ str ''```z''"
  have e: "extract_mermaid_diagrams ?c = [str ''A'', str ''B'']"
    by code_simp
  note w = substituter_walk [of ?imgs ?c]
  from w have w0: "walk ?imgs ?c 0 = ?c" by blast
  from w have wn: "create_enhanced_markdown ?c ?imgs
      = walk ?imgs ?c (length (extract_mermaid_diagrams ?c))" by blast
  from w have a: "\<forall>k<length (extract_mermaid_diagrams ?c). k < length ?imgs \<longrightarrow>
      (\<exists>pre post.
         walk ?imgs ?c k
           = pre @ (str ''```mermaid'' @ [10] @ extract_mermaid_diagrams ?c ! k @ [10]
                      @ str ''```'') @ post \<and>
         no_start (str ''```mermaid'' @ [10] @ extract_mermaid_diagrams ?c ! k @ [10]
                     @ str ''```'') pre
           ((str ''```mermaid'' @ [10] @ extract_mermaid_diagrams ?c ! k @ [10]
               @ str ''```'') @ post) \<and>
         walk ?imgs ?c (Suc k)
           = pre @ (str ''![Diagram '' @ show_nat (Suc k) @ str '']('' @ ?imgs ! k
                      @ str '')'') @ post)" by blast
  from w have b: "\<forall>k<length (extract_mermaid_diagrams ?c). length ?imgs \<le> k \<longrightarrow>
      walk ?imgs ?c (Suc k) = walk ?imgs ?c k" by blast
  from a [unfolded e, rule_format, of 0] obtain pre post where
    p: "walk ?imgs ?c 0 = pre @ ?blk @ post"
       "no_start ?blk pre (?blk @ post)"
       "walk ?imgs ?c (Suc 0) = pre @ (str ''![Diagram '' @ show_nat (Suc 0) @ str '']('' @ str ''p.png''
                      @ str '')'') @ post"
    by auto
  have "find_first ?blk (pre @ ?blk @ post) = Some (pre, post)"
    using p(2) by (rule find_first_first)
  moreover from w0 p(1) have "pre @ ?blk @ post = ?c" by simp
  ultimately have f1: "find_first ?blk ?c = Some (pre, post)" by simp
  have f2: "find_first ?blk ?c = Some (str ''x'', ?rest)"
    by code_simp
  from f1 f2 have pp: "pre = str ''x''" "post = ?rest" by simp_all
  have w1: "walk ?imgs ?c (Suc 0)
      = str ''x![Diagram 1](p.png)y```mermaid'' @ [10] @ str ''B'' @ [10] @ str ''```z''"
    unfolding p(3) pp by (simp add: show_nat.simps str_def)
  from b [unfolded e, rule_format, of "Suc 0"]
  have w2: "walk ?imgs ?c (Suc (Suc 0)) = walk ?imgs ?c (Suc 0)" by simp
  from wn have "create_enhanced_markdown ?c ?imgs = walk ?imgs ?c (Suc (Suc 0))"
    unfolding e by simp
  with w2 w1 show ?thesis by simp
qed

section \<open>Blocks left by the substituter\<close>

text \<open>
  Claim C9, amended. If none of the image paths that are used contains the opening
  fence, the blocks that the extractor finds in the result are the blocks of the
  document from index \<open>m\<close> on, \<open>m\<close> the number of image paths: \<open>n - min n m\<close> blocks are
  left. Without the condition the count fails: an image path may itself hold a block.
\<close>

theorem remaining_blocks:
  assumes "\<forall>j<length (extract_mermaid_diagrams content).
             j < length image_files \<longrightarrow> \<not> sublist fence_open (image_files ! j)"
  shows "extract_mermaid_diagrams (create_enhanced_markdown content image_files)
           = drop (length image_files) (extract_mermaid_diagrams content) \<and>
         length (extract_mermaid_diagrams (create_enhanced_markdown content image_files))
           = length (extract_mermaid_diagrams content)
             - min (length (extract_mermaid_diagrams content)) (length image_files)"
proof -
  obtain segs tail where l: "content = doc segs tail" "scanned segs tail"
    using layout_exists by blast
  then have e: "extract_mermaid_diagrams content = map snd segs" by (simp add: extract_doc)
  from assms e have f: "\<forall>j<length segs. 0 + j < length image_files
                          \<longrightarrow> \<not> sublist fence_open (image_files ! (0 + j))" by simp
  have n: "no_start fence_open [] (doc segs tail)" by simp
  from enhance_loop_substituted [OF l(2) n f]
  have "enhance_loop 0 (map snd segs) image_files (doc segs tail)
          = substituted 0 image_files segs tail"
    "extract_mermaid_diagrams (substituted 0 image_files segs tail)
          = drop (length image_files) (map snd segs)" by simp_all
  with e l(1) have "extract_mermaid_diagrams (create_enhanced_markdown content image_files)
           = drop (length image_files) (extract_mermaid_diagrams content)"
    by (simp add: create_enhanced_markdown_def)
  then show ?thesis by simp
qed

theorem remaining_blocks_counterexample:
  "length (extract_mermaid_diagrams
     (create_enhanced_markdown (str ''```mermaid'' @ [10] @ str ''A'' @ [10] @ str ''```'')
        [str ''```mermaid'' @ [10] @ str ''Z'' @ [10] @ str ''```'']))
   \<noteq> length (extract_mermaid_diagrams (str ''```mermaid'' @ [10] @ str ''A'' @ [10] @ str ''```''))
       - min (length (extract_mermaid_diagrams
                        (str ''```mermaid'' @ [10] @ str ''A'' @ [10] @ str ''```'')))
             (length [str ''```mermaid'' @ [10] @ str ''Z'' @ [10] @ str ''```''])"
  by code_simp

theorem remaining_blocks_witness:
  "\<not> sublist fence_open ([str ''p.png''] ! 0) \<and>
   extract_mermaid_diagrams
     (create_enhanced_markdown
        (str ''x```mermaid'' @ [10] @ str ''A'' @ [10] @ str ''```y```mermaid'' @ [10] @ str ''B''
           @ [10] @ str ''```z'')
        [str ''p.png''])
     = [str ''B'']"
proof -
  let ?c = "str ''x```mermaid'' @ [10] @ str ''A'' @ [10] @ str ''```y```mermaid'' @ [10] @ str ''B''
           @ [10] @ str ''```z''"
  have e: "extract_mermaid_diagrams ?c = [str ''A'', str ''B'']"
    by code_simp
  have p: "\<not> sublist fence_open (str ''p.png'')"
    by (rule no_backtick_no_fence) (simp add: str_def)
  have h: "\<forall>j<length (extract_mermaid_diagrams ?c).
      j < length [str ''p.png''] \<longrightarrow> \<not> sublist fence_open ([str ''p.png''] ! j)"
    using p by simp
  from remaining_blocks [OF h]
  have "extract_mermaid_diagrams (create_enhanced_markdown ?c [str ''p.png''])
          = drop (length [str ''p.png'']) (extract_mermaid_diagrams ?c)" by blast
  then have "extract_mermaid_diagrams (create_enhanced_markdown ?c [str ''p.png'']) = [str ''B'']"
    unfolding e by simp
  with p show ?thesis by simp
qed

section \<open>Repeated bodies\<close>

text \<open>
  Claim C10, amended. If there is an image path for every block and none of these
  paths contains the opening fence, then every block of the document, in document
  order, is replaced by the image reference of its own index, whether or not bodies
  repeat, and no block is left. Without the condition on the paths a repeated body can
  be replaced inside an earlier image reference and its own block skipped.
\<close>

theorem duplicates_in_order:
  assumes "scanned segs tail"
    and "length segs \<le> length image_files"
    and "\<forall>j<length segs. \<not> sublist fence_open (image_files ! j)"
  shows "create_enhanced_markdown (doc segs tail) image_files
           = with_images 0 image_files segs tail \<and>
         extract_mermaid_diagrams (create_enhanced_markdown (doc segs tail) image_files) = []"
proof -
  have e: "extract_mermaid_diagrams (doc segs tail) = map snd segs"
    using assms(1) by (rule extract_doc)
  from assms(3) have f: "\<forall>j<length segs. 0 + j < length image_files
                          \<longrightarrow> \<not> sublist fence_open (image_files ! (0 + j))" by simp
  have n: "no_start fence_open [] (doc segs tail)" by simp
  from enhance_loop_substituted [OF assms(1) n f]
  have "enhance_loop 0 (map snd segs) image_files (doc segs tail)
          = substituted 0 image_files segs tail"
    "extract_mermaid_diagrams (substituted 0 image_files segs tail)
          = drop (length image_files) (map snd segs)" by simp_all
  with e assms(2) show ?thesis
    by (simp add: create_enhanced_markdown_def substituted_all)
qed

theorem duplicates_in_order_counterexample:
  "extract_mermaid_diagrams
     (str ''```mermaid'' @ [10] @ str ''B'' @ [10] @ str ''```'' @ [10]
        @ str ''```mermaid'' @ [10] @ str ''B'' @ [10] @ str ''```'')
     = [str ''B'', str ''B''] \<and>
   create_enhanced_markdown
     (str ''```mermaid'' @ [10] @ str ''B'' @ [10] @ str ''```'' @ [10]
        @ str ''```mermaid'' @ [10] @ str ''B'' @ [10] @ str ''```'')
     [str ''```mermaid'' @ [10] @ str ''B'' @ [10] @ str ''```'', str ''y'']
     = str ''![Diagram 1](![Diagram 2](y))'' @ [10]
         @ str ''```mermaid'' @ [10] @ str ''B'' @ [10] @ str ''```'' \<and>
   create_enhanced_markdown
     (str ''```mermaid'' @ [10] @ str ''B'' @ [10] @ str ''```'' @ [10]
        @ str ''```mermaid'' @ [10] @ str ''B'' @ [10] @ str ''```'')
     [str ''```mermaid'' @ [10] @ str ''B'' @ [10] @ str ''```'', str ''y'']
     \<noteq> str ''![Diagram 1](```mermaid'' @ [10] @ str ''B'' @ [10] @ str ''```)'' @ [10]
         @ str ''![Diagram 2](y)''"
  by code_simp
theorem duplicates_in_order_witness:
  "scanned [([], str ''B''), ([10], str ''B'')] [] \<and>
   length [([], str ''B''), ([10::nat], str ''B'')] \<le> length [str ''a.png'', str ''b.png''] \<and>
   \<not> sublist fence_open ([str ''a.png'', str ''b.png''] ! 0) \<and>
   \<not> sublist fence_open ([str ''a.png'', str ''b.png''] ! 1) \<and>
   create_enhanced_markdown
     (str ''```mermaid'' @ [10] @ str ''B'' @ [10] @ str ''```'' @ [10]
        @ str ''```mermaid'' @ [10] @ str ''B'' @ [10] @ str ''```'')
     [str ''a.png'', str ''b.png'']
     = str ''![Diagram 1](a.png)'' @ [10] @ str ''![Diagram 2](b.png)''"
proof -
  let ?segs = "[([], str ''B''), ([10], str ''B'')] :: (ustr \<times> ustr) list"
  let ?imgs = "[str ''a.png'', str ''b.png'']"
  have h1: "scanned ?segs []"
    by (simp add: str_def fence_open_def fence_close_def mermaid_block_def)
  have h2: "length ?segs \<le> length ?imgs" by simp
  have h3: "\<forall>j<length ?segs. \<not> sublist fence_open (?imgs ! j)"
    by (simp add: All_less_Suc no_backtick_no_fence str_def)
  have d: "doc ?segs [] = str ''```mermaid'' @ [10] @ str ''B'' @ [10] @ str ''```'' @ [10]
        @ str ''```mermaid'' @ [10] @ str ''B'' @ [10] @ str ''```''"
    by (simp add: mermaid_block_def)
  have w: "with_images 0 ?imgs ?segs []
        = str ''![Diagram 1](a.png)'' @ [10] @ str ''![Diagram 2](b.png)''"
    by (simp add: image_ref_def show_nat.simps str_def)
  from duplicates_in_order [OF h1 h2 h3]
  have "create_enhanced_markdown (doc ?segs []) ?imgs = with_images 0 ?imgs ?segs []" by blast
  moreover have "\<not> sublist fence_open (?imgs ! 0)" "\<not> sublist fence_open (?imgs ! 1)"
    by (simp_all add: no_backtick_no_fence str_def)
  ultimately show ?thesis using h1 h2 unfolding d w by blast
qed

section \<open>A run of the script\<close>



















end
